theory Spec2Isabelle
  imports Main "HOL-Library.Sublist"
begin

section \<open>Text: characters and string primitives of the source language\<close>

text \<open>
  The program is \<^verbatim>\<open>src/chatbot/chatbot_db.py\<close>. Its texts are Python \<^verbatim>\<open>str\<close> values.
  A \<^typ>\<open>char\<close> stands for one code point below 256, so a \<^typ>\<open>string\<close> is a Python
  string over Latin-1. The three character classes below are those of CPython for these
  code points: \<^verbatim>\<open>str.isspace\<close>, the regular expression class \<^verbatim>\<open>\w\<close> of a \<^verbatim>\<open>str\<close>
  pattern, and case folding under \<^verbatim>\<open>(?i)\<close> (below 256 only the ASCII letters fold
  onto ASCII letters).
\<close>

definition isspace :: "char \<Rightarrow> bool" where
  "isspace c = ((of_char c :: nat) \<in> {9, 10, 11, 12, 13, 28, 29, 30, 31, 32, 133, 160})"

definition is_word :: "char \<Rightarrow> bool" where
  "is_word c =
     (let n = (of_char c :: nat)
      in (48 \<le> n \<and> n \<le> 57) \<or> (65 \<le> n \<and> n \<le> 90) \<or> n = 95 \<or> (97 \<le> n \<and> n \<le> 122)
         \<or> n \<in> {170, 178, 179, 181, 185, 186, 188, 189, 190}
         \<or> (192 \<le> n \<and> n \<le> 214) \<or> (216 \<le> n \<and> n \<le> 246) \<or> (248 \<le> n \<and> n \<le> 255))"

definition lower :: "char \<Rightarrow> char" where
  "lower c =
     (let n = (of_char c :: nat) in if 65 \<le> n \<and> n \<le> 90 then char_of (n + 32) else c)"

definition newline :: char where
  "newline = CHR 0x0A"

text \<open>The next character of a text, if there is one.\<close>

fun head :: "string \<Rightarrow> char option" where
  "head [] = None"
| "head (c # cs) = Some c"

text \<open>
  The assertion \<^verbatim>\<open>\b\<close> between the character in front of a position and the one at it
  (\<open>None\<close> at either end of the text): exactly one of the two is a word character.
\<close>

definition word_boundary :: "char option \<Rightarrow> char option \<Rightarrow> bool" where
  "word_boundary prev nxt =
     ((case prev of None \<Rightarrow> False | Some c \<Rightarrow> is_word c)
      \<noteq> (case nxt of None \<Rightarrow> False | Some c \<Rightarrow> is_word c))"

text \<open>\<^verbatim>\<open>s.strip()\<close>: whitespace removed at both ends.\<close>

definition strip :: "string \<Rightarrow> string" where
  "strip s = rev (dropWhile isspace (rev (dropWhile isspace s)))"

text \<open>
  \<^verbatim>\<open>s.split(sep)\<close> for a non-empty separator: the pieces between the occurrences of
  \<open>sep\<close>, found from the left without overlap; \<open>acc\<close> is the current piece, reversed.
\<close>

fun str_split_from :: "string \<Rightarrow> string \<Rightarrow> string \<Rightarrow> string list" where
  "str_split_from sep acc [] = [rev acc]"
| "str_split_from sep acc (c # cs) =
     (if sep \<noteq> [] \<and> prefix sep (c # cs)
      then rev acc # str_split_from sep [] (drop (length sep - 1) cs)
      else str_split_from sep (c # acc) cs)"

definition str_split :: "string \<Rightarrow> string \<Rightarrow> string list" where
  "str_split sep s = str_split_from sep [] s"

text \<open>\<^verbatim>\<open>sep.join(xs)\<close>.\<close>

fun str_join :: "string \<Rightarrow> string list \<Rightarrow> string" where
  "str_join sep [] = []"
| "str_join sep [x] = x"
| "str_join sep (x # y # ys) = x @ sep @ str_join sep (y # ys)"

section \<open>The response sanitizer: \<^verbatim>\<open>generate_response\<close>, lines 108 to 133\<close>

text \<open>
  \<^verbatim>\<open>re.sub(r"<.*?>", "", response)\<close>. The lazy \<^verbatim>\<open>.*?\<close> stops at the first \<^verbatim>\<open>>\<close>, and
  \<^verbatim>\<open>.\<close> does not match a newline: \<open>tag_end\<close> is the text after the closing \<^verbatim>\<open>>\<close> of a
  tag opened just in front of its argument, if the tag closes on its line.
\<close>

fun tag_end :: "string \<Rightarrow> string option" where
  "tag_end [] = None"
| "tag_end (c # cs) =
     (if c = CHR ''>'' then Some cs else if c = newline then None else tag_end cs)"

lemma tag_end_length [termination_simp]: "tag_end cs = Some r \<Longrightarrow> length r \<le> length cs"
  by (induction cs) (auto split: if_splits)

fun remove_tags :: "string \<Rightarrow> string" where
  "remove_tags [] = []"
| "remove_tags (c # cs) =
     (if c = CHR ''<''
      then (case tag_end cs of Some r \<Rightarrow> remove_tags r | None \<Rightarrow> c # remove_tags cs)
      else c # remove_tags cs)"

text \<open>
  \<^verbatim>\<open>re.split(r"\b(User:|Assistant:)\b", response)[0]\<close>: the text in front of the first match.
  \<open>turn_marker_at prev s\<close> says that the pattern matches at the start of \<open>s\<close>, where
  \<open>prev\<close> is the character in front of \<open>s\<close>.
\<close>

definition turn_marker_at :: "char option \<Rightarrow> string \<Rightarrow> bool" where
  "turn_marker_at prev s =
     (word_boundary prev (head s)
      \<and> list_ex (\<lambda>m. prefix m s \<and> word_boundary (Some (last m)) (head (drop (length m) s)))
          [''User:'', ''Assistant:''])"

fun before_turn_marker :: "char option \<Rightarrow> string \<Rightarrow> string" where
  "before_turn_marker prev [] = []"
| "before_turn_marker prev (c # cs) =
     (if turn_marker_at prev (c # cs) then [] else c # before_turn_marker (Some c) cs)"

text \<open>
  \<^verbatim>\<open>re.sub(r'(?i)\b(Hmm|Wait|...|Anyway)\b.*', '', response)\<close>. A match starts at a
  word boundary with one of the markers, compared without case, followed by a word
  boundary; \<^verbatim>\<open>.*\<close> then takes the rest of the line, up to the next newline, which is
  kept. No marker starts with a newline, so the scan goes on behind it.
\<close>

definition fillers :: "string list" where
  "fillers = [''Hmm'', ''Wait'', ''Let me think'', ''I think'', ''Maybe'', ''Possibly'',
     ''Alternatively'', ''Should I'', ''Now I need to'', ''So'', ''Alright'', ''Anyway'']"

definition filler_at :: "char option \<Rightarrow> string \<Rightarrow> bool" where
  "filler_at prev s =
     (word_boundary prev (head s)
      \<and> list_ex (\<lambda>m. length m \<le> length s
                     \<and> map lower (take (length m) s) = map lower m
                     \<and> word_boundary (Some (last (take (length m) s))) (head (drop (length m) s)))
          fillers)"

lemma dropWhile_rest_length [termination_simp]:
  "dropWhile P cs = n # r \<Longrightarrow> length r < length cs"
  using length_dropWhile_le [of P cs] by simp

fun remove_thinking :: "char option \<Rightarrow> string \<Rightarrow> string" where
  "remove_thinking prev [] = []"
| "remove_thinking prev (c # cs) =
     (if filler_at prev (c # cs)
      then (case dropWhile (\<lambda>x. x \<noteq> newline) cs of
              [] \<Rightarrow> []
            | n # r \<Rightarrow> n # remove_thinking (Some n) r)
      else c # remove_thinking (Some c) cs)"

text \<open>
  \<^verbatim>\<open>re.split(r'(?<=[.!?]) +', response)\<close>: a separator is a run of spaces behind one of
  \<^verbatim>\<open>.\<close>, \<^verbatim>\<open>!\<close>, \<^verbatim>\<open>?\<close>; \<open>acc\<close> is the current piece, reversed.
\<close>

definition terminal :: "char \<Rightarrow> bool" where
  "terminal c = (c = CHR ''.'' \<or> c = CHR ''!'' \<or> c = CHR ''?'')"

lemma dropWhile_length_Suc [termination_simp]:
  "length (dropWhile P cs) < Suc (length cs)"
  using length_dropWhile_le [of P cs] by simp

fun split_sentences :: "char option \<Rightarrow> string \<Rightarrow> string \<Rightarrow> string list" where
  "split_sentences prev acc [] = [rev acc]"
| "split_sentences prev acc (c # cs) =
     (if c = CHR '' '' \<and> (case prev of None \<Rightarrow> False | Some b \<Rightarrow> terminal b)
      then rev acc # split_sentences (Some (CHR '' '')) [] (dropWhile (\<lambda>x. x = CHR '' '') cs)
      else split_sentences (Some c) (c # acc) cs)"

text \<open>\<^verbatim>\<open>response.endswith(('.', '!', '?'))\<close>.\<close>

definition ends_terminal :: "string \<Rightarrow> bool" where
  "ends_terminal s = (s \<noteq> [] \<and> terminal (last s))"

text \<open>Lines 108 to 126: the text up to the check of the terminal punctuation.\<close>

definition extract_reply :: "string \<Rightarrow> string" where
  "extract_reply decoded = strip (last (str_split ''Assistant:'' decoded))"

definition before_filler :: "string \<Rightarrow> string" where
  "before_filler decoded = strip (before_turn_marker None (remove_tags (extract_reply decoded)))"

definition three_sentences :: "string \<Rightarrow> string" where
  "three_sentences response = strip (str_join '' '' (take 3 (split_sentences None [] response)))"

definition steps_1_6 :: "string \<Rightarrow> string" where
  "steps_1_6 decoded = three_sentences (strip (remove_thinking None (before_filler decoded)))"

text \<open>Lines 128 to 132.\<close>

definition finish :: "string \<Rightarrow> string" where
  "finish response =
     (let response = (if \<not> ends_terminal response then response @ ''.'' else response)
      in strip (map (\<lambda>c. if c = newline then CHR '' '' else c) response))"

definition sanitize :: "string \<Rightarrow> string" where
  "sanitize decoded = finish (steps_1_6 decoded)"

section \<open>The session store and the connection handler: \<^verbatim>\<open>websocket_endpoint\<close>\<close>

definition MAX_HISTORY :: nat where
  "MAX_HISTORY = 3"

definition system_prompt :: string where
  "system_prompt =
     ''You are a helpful AI assistant. Answer the user'' @ [CHR 0x27]
     @ ''s question concisely and accurately. ''
     @ ''Do not explain your reasoning or thought process. ''
     @ ''Just provide the answer in 1-3 complete sentences'' @ [newline, newline]"

text \<open>The entries of a history are formatted strings, as in lines 146, 153 and 162.\<close>

datatype role = System | User | Assistant

fun role_name :: "role \<Rightarrow> string" where
  "role_name System = ''System''"
| "role_name User = ''User''"
| "role_name Assistant = ''Assistant''"

definition turn_line :: "role \<times> string \<Rightarrow> string" where
  "turn_line t = role_name (fst t) @ '': '' @ snd t"

text \<open>\<^verbatim>\<open>xs[-n:]\<close> for \<open>0 < n\<close>: the last \<open>n\<close> entries, all of them when there are fewer.\<close>

definition last_n :: "nat \<Rightarrow> 'a list \<Rightarrow> 'a list" where
  "last_n n xs = drop (length xs - n) xs"

text \<open>
  Lines 153 to 155: the User turn is appended, then the history is cut when it is longer
  than \<open>MAX_HISTORY * 2 + 1\<close>. The list is not empty there, so \<^verbatim>\<open>[0]\<close> does not raise.
\<close>

definition append_user :: "string list \<Rightarrow> string \<Rightarrow> string list" where
  "append_user h user_input =
     (let h = h @ [''User: '' @ user_input]
      in if length h > MAX_HISTORY * 2 + 1 then [hd h] @ last_n (MAX_HISTORY * 2) h else h)"

text \<open>Line 157.\<close>

definition context_of :: "string list \<Rightarrow> string" where
  "context_of h = str_join [newline] h @ [newline] @ ''Assistant:''"

text \<open>
  The two exception classes that the handler tells apart (lines 171 and 175):
  \<^verbatim>\<open>WebSocketDisconnect\<close>, and any other \<^verbatim>\<open>Exception\<close>, a \<^verbatim>\<open>KeyError\<close> of the session
  store among them.
\<close>

datatype exn = WebSocketDisconnect | OtherException

text \<open>
  A handler is suspended at one of its \<^verbatim>\<open>await\<close>s; the constructors carry the local
  variables \<^verbatim>\<open>user_input\<close>, \<^verbatim>\<open>context\<close> and \<^verbatim>\<open>response\<close> that are live there.
  \<open>Receiving\<close> is line 150, \<open>Locking\<close> line 159, \<open>Generating\<close> line 160, \<open>Logging\<close> line 163,
  \<open>SendingReply\<close> line 166, \<open>SendingEnd\<close> line 167, \<open>Closing\<close> line 177; \<open>Finished\<close> is
  a handler that has returned or has let an exception escape.
\<close>

datatype pc =
    Receiving
  | Locking string string
  | Generating string string
  | Logging string string
  | SendingReply string
  | SendingEnd
  | Closing
  | Finished

text \<open>What a client sees on its socket.\<close>

datatype frame = Text string | Closed

text \<open>
  The process: the dictionary \<^verbatim>\<open>chat_histories\<close>, whether \<^verbatim>\<open>model_lock\<close> is held, the
  handlers by session identifier, the rows written to \<^verbatim>\<open>chat_logs\<close> (session, user
  message, reply) and the frames sent, both oldest first.
\<close>

record server =
  chat_histories :: "string \<rightharpoonup> string list"
  model_lock :: bool
  handlers :: "string \<rightharpoonup> pc"
  chat_logs :: "(string \<times> string \<times> string) list"
  wire :: "(string \<times> frame) list"

definition init :: server where
  "init = \<lparr>chat_histories = Map.empty, model_lock = False, handlers = Map.empty,
            chat_logs = [], wire = []\<rparr>"

text \<open>
  The environment resumes one handler at a time (cooperative scheduling). An event names
  the session and what the awaited call gave: a value, or an exception raised there.
  \<open>Connect\<close> is lines 138 to 146 with the identifier that \<^verbatim>\<open>uuid4\<close> returned; \<open>Generate\<close>
  carries \<^verbatim>\<open>decoded\<close>, the text that the tokenizer and the model produced (line 105).
\<close>

datatype event =
    Connect string
  | Receive string "exn + string"
  | Acquire string
  | Generate string "exn + string"
  | Log string "exn + unit"
  | Send string "exn + unit"
  | Close string "exn + unit"

text \<open>
  Lines 171 to 179, up to the \<^verbatim>\<open>await\<close> of line 177: a disconnect removes the session
  at once, any other exception first closes the socket.
\<close>

fun handle_exn :: "string \<Rightarrow> exn \<Rightarrow> server \<Rightarrow> server" where
  "handle_exn sid WebSocketDisconnect s =
     s\<lparr>chat_histories := (chat_histories s)(sid := None),
       handlers := (handlers s)(sid \<mapsto> Finished)\<rparr>"
| "handle_exn sid OtherException s = s\<lparr>handlers := (handlers s)(sid \<mapsto> Closing)\<rparr>"

text \<open>
  One resumption of one handler, up to its next \<^verbatim>\<open>await\<close>. The result is \<open>None\<close> when
  the handler is not waiting for this event. \<^verbatim>\<open>uuid4\<close> is taken to return an identifier
  that no handler has had, and \<^verbatim>\<open>model_lock\<close> to be an \<^verbatim>\<open>asyncio.Lock\<close>, which
  \<^verbatim>\<open>async with\<close> releases also when the body raises. The calls of \<^verbatim>\<open>print\<close> and of
  \<^verbatim>\<open>gc.collect\<close> change nothing of this state and are left out.
\<close>

fun step :: "event \<Rightarrow> server \<Rightarrow> server option" where
  "step (Connect sid) s =
     (if handlers s sid \<noteq> None then None
      else Some (s\<lparr>chat_histories := (chat_histories s)(sid \<mapsto> [''System: '' @ system_prompt]),
                   handlers := (handlers s)(sid \<mapsto> Receiving)\<rparr>))"
| "step (Receive sid r) s =
     (case handlers s sid of
        Some Receiving \<Rightarrow>
          Some (case r of
                  Inl e \<Rightarrow> handle_exn sid e s
                | Inr user_input \<Rightarrow>
                    (case chat_histories s sid of
                       None \<Rightarrow> handle_exn sid OtherException s
                     | Some h \<Rightarrow>
                         (let h = append_user h user_input;
                              context = context_of h
                          in s\<lparr>chat_histories := (chat_histories s)(sid \<mapsto> h),
                               handlers := (handlers s)(sid \<mapsto> Locking user_input context)\<rparr>)))
      | _ \<Rightarrow> None)"
| "step (Acquire sid) s =
     (case handlers s sid of
        Some (Locking user_input context) \<Rightarrow>
          (if model_lock s then None
           else Some (s\<lparr>model_lock := True,
                        handlers := (handlers s)(sid \<mapsto> Generating user_input context)\<rparr>))
      | _ \<Rightarrow> None)"
| "step (Generate sid r) s =
     (case handlers s sid of
        Some (Generating user_input context) \<Rightarrow>
          Some (let s = s\<lparr>model_lock := False\<rparr>
                in case r of
                     Inl e \<Rightarrow> handle_exn sid e s
                   | Inr decoded \<Rightarrow>
                       (let response = sanitize decoded
                        in case chat_histories s sid of
                             None \<Rightarrow> handle_exn sid OtherException s
                           | Some h \<Rightarrow>
                               s\<lparr>chat_histories :=
                                    (chat_histories s)(sid \<mapsto> h @ [''Assistant: '' @ response]),
                                  handlers := (handlers s)(sid \<mapsto> Logging user_input response)\<rparr>))
      | _ \<Rightarrow> None)"
| "step (Log sid r) s =
     (case handlers s sid of
        Some (Logging user_input response) \<Rightarrow>
          Some (case r of
                  Inl e \<Rightarrow> handle_exn sid e s
                | Inr _ \<Rightarrow>
                    s\<lparr>chat_logs := chat_logs s @ [(sid, user_input, response)],
                      handlers := (handlers s)(sid \<mapsto> SendingReply response)\<rparr>)
      | _ \<Rightarrow> None)"
| "step (Send sid r) s =
     (case handlers s sid of
        Some (SendingReply response) \<Rightarrow>
          Some (case r of
                  Inl e \<Rightarrow> handle_exn sid e s
                | Inr _ \<Rightarrow>
                    s\<lparr>wire := wire s @ [(sid, Text response)],
                      handlers := (handlers s)(sid \<mapsto> SendingEnd)\<rparr>)
      | Some SendingEnd \<Rightarrow>
          Some (case r of
                  Inl e \<Rightarrow> handle_exn sid e s
                | Inr _ \<Rightarrow>
                    s\<lparr>wire := wire s @ [(sid, Text ''[END]'')],
                      handlers := (handlers s)(sid \<mapsto> Receiving)\<rparr>)
      | _ \<Rightarrow> None)"
| "step (Close sid r) s =
     (case handlers s sid of
        Some Closing \<Rightarrow>
          Some (case r of
                  Inl e \<Rightarrow> s\<lparr>handlers := (handlers s)(sid \<mapsto> Finished)\<rparr>
                | Inr _ \<Rightarrow>
                    s\<lparr>wire := wire s @ [(sid, Closed)],
                      chat_histories := (chat_histories s)(sid := None),
                      handlers := (handlers s)(sid \<mapsto> Finished)\<rparr>)
      | _ \<Rightarrow> None)"

text \<open>A run of the process: the events in order, from a given state.\<close>

fun run :: "event list \<Rightarrow> server \<Rightarrow> server option" where
  "run [] s = Some s"
| "run (e # es) s = (case step e s of None \<Rightarrow> None | Some s' \<Rightarrow> run es s')"

text \<open>One whole turn of a session in which nothing fails.\<close>

definition turn :: "string \<Rightarrow> string \<Rightarrow> string \<Rightarrow> event list" where
  "turn sid user_input decoded =
     [Receive sid (Inr user_input), Acquire sid, Generate sid (Inr decoded),
      Log sid (Inr ()), Send sid (Inr ()), Send sid (Inr ())]"

section \<open>Notions used to state the properties\<close>

text \<open>
  Step 5 in the words of the specification: the first discourse marker and everything
  after it are deleted. \<open>cut_at_filler prev s\<close> is the part of \<open>s\<close> in front of the first
  position where the pattern of line 118 matches.
\<close>

fun cut_at_filler :: "char option \<Rightarrow> string \<Rightarrow> string" where
  "cut_at_filler prev [] = []"
| "cut_at_filler prev (c # cs) =
     (if filler_at prev (c # cs) then [] else c # cut_at_filler (Some c) cs)"

text \<open>
  \<^verbatim>\<open>render\<close> in the words of the specification: the turns as lines, with a last line
  \<^verbatim>\<open>Assistant:\<close>, joined by newlines.
\<close>

definition spec_render :: "(role \<times> string) list \<Rightarrow> string" where
  "spec_render ts = str_join [newline] (map turn_line ts @ [''Assistant:''])"

text \<open>An entry of a history that is a User or an Assistant turn.\<close>

definition reply_line :: "string \<Rightarrow> bool" where
  "reply_line x = (prefix ''User: '' x \<or> prefix ''Assistant: '' x)"

text \<open>The frames that the client of one session has been sent, oldest first.\<close>

definition frames_of :: "string \<Rightarrow> server \<Rightarrow> frame list" where
  "frames_of sid s = map snd (filter (\<lambda>p. fst p = sid) (wire s))"

text \<open>The session whose handler an event resumes.\<close>

fun session_of :: "event \<Rightarrow> string" where
  "session_of (Connect sid) = sid"
| "session_of (Receive sid r) = sid"
| "session_of (Acquire sid) = sid"
| "session_of (Generate sid r) = sid"
| "session_of (Log sid r) = sid"
| "session_of (Send sid r) = sid"
| "session_of (Close sid r) = sid"

text \<open>
  A session whose loop has ended with \<open>fs\<close> sent: the handler closes the socket or has
  finished, and the client has been sent \<open>fs\<close> and at most the closing of the socket.
\<close>

definition ended :: "string \<Rightarrow> frame list \<Rightarrow> server \<Rightarrow> bool" where
  "ended sid fs s =
     ((handlers s sid = Some Closing \<and> frames_of sid s = fs)
      \<or> (handlers s sid = Some Finished
          \<and> (frames_of sid s = fs \<or> frames_of sid s = fs @ [Closed])))"

text \<open>
  Three whole turns of session \<^verbatim>\<open>a\<close>, and a fourth up to the append of its Assistant
  turn in line 162.
\<close>

definition three_turns :: "event list" where
  "three_turns = Connect ''a'' # turn ''a'' ''1'' ''x'' @ turn ''a'' ''2'' ''y'' @ turn ''a'' ''3'' ''z''"

definition fourth_reply :: "event list" where
  "fourth_reply = three_turns @ [Receive ''a'' (Inr ''4''), Acquire ''a'', Generate ''a'' (Inr ''w'')]"

text \<open>
  The handler is between the cut of line 155 and the append of line 162: it waits for the
  lock or for the generation.
\<close>

fun awaits_generation :: "pc \<Rightarrow> bool" where
  "awaits_generation (Locking user_input context) = True"
| "awaits_generation (Generating user_input context) = True"
| "awaits_generation p = False"

text \<open>
  What holds of a session's history \<open>h\<close> while its handler is at \<open>p\<close>: the System turn is
  first and the only one, there are at most \<open>2 * MAX_HISTORY + 2\<close> entries, and while the
  handler waits for the generation there are at most \<open>2 * MAX_HISTORY + 1\<close>, the last is
  the User turn and \<^verbatim>\<open>context\<close> is the rendering of \<open>h\<close>.
\<close>

definition generation_ok :: "string \<Rightarrow> string \<Rightarrow> string list \<Rightarrow> bool" where
  "generation_ok user_input context h =
     (length h \<le> MAX_HISTORY * 2 + 1 \<and> last h = ''User: '' @ user_input
      \<and> context = context_of h)"

definition history_ok :: "pc \<Rightarrow> string list \<Rightarrow> bool" where
  "history_ok p h =
     (h \<noteq> [] \<and> hd h = ''System: '' @ system_prompt
      \<and> list_all reply_line (tl h) \<and> length h \<le> MAX_HISTORY * 2 + 2
      \<and> (case p of
            Locking user_input context \<Rightarrow> generation_ok user_input context h
          | Generating user_input context \<Rightarrow> generation_ok user_input context h
          | _ \<Rightarrow> True))"

text \<open>
  A session has a history exactly from its connection until its handler has finished
  (a history can outlive its handler only when line 177 raises).
\<close>

fun session_ok :: "pc option \<Rightarrow> string list option \<Rightarrow> bool" where
  "session_ok None v = (v = None)"
| "session_ok (Some p) None = (p = Finished)"
| "session_ok (Some p) (Some h) = history_ok p h"

definition sessions_ok :: "server \<Rightarrow> bool" where
  "sessions_ok s = (\<forall>sid. session_ok (handlers s sid) (chat_histories s sid))"

section \<open>Properties of the sanitizer\<close>

lemma terminal_not_space: "terminal c \<Longrightarrow> \<not> isspace c"
  by (auto simp: terminal_def isspace_def)

lemma terminal_not_newline: "terminal c \<Longrightarrow> c \<noteq> newline"
  by (auto simp: terminal_def newline_def)

lemma dropWhile_keeps_last:
  "s \<noteq> [] \<Longrightarrow> \<not> P (last s) \<Longrightarrow> dropWhile P s \<noteq> [] \<and> last (dropWhile P s) = last s"
  by (induction s) (auto split: if_splits)

lemma strip_keeps_last:
  assumes "s \<noteq> []" and "\<not> isspace (last s)"
  shows "strip s \<noteq> [] \<and> last (strip s) = last s"
proof -
  let ?d = "dropWhile isspace s"
  have d: "?d \<noteq> [] \<and> last ?d = last s"
    using assms by (rule dropWhile_keeps_last)
  then have "hd (rev ?d) = last s"
    by (simp add: hd_rev)
  with d assms(2) have "dropWhile isspace (rev ?d) = rev ?d"
    by (cases "rev ?d") auto
  with d show ?thesis
    by (simp add: strip_def)
qed

lemma finish_ends_terminal: "finish r \<noteq> [] \<and> terminal (last (finish r))"
proof -
  define r' where "r' = (if \<not> ends_terminal r then r @ ''.'' else r)"
  define m where "m = map (\<lambda>c. if c = newline then CHR '' '' else c) r'"
  have r': "r' \<noteq> [] \<and> terminal (last r')"
    by (auto simp: r'_def ends_terminal_def terminal_def)
  then have m: "m \<noteq> [] \<and> last m = last r'"
    by (auto simp: m_def last_map terminal_not_newline)
  with r' have "\<not> isspace (last m)"
    by (simp add: terminal_not_space)
  with m have "strip m \<noteq> [] \<and> last (strip m) = last m"
    by (simp add: strip_keeps_last)
  moreover have "finish r = strip m"
    by (simp add: finish_def m_def r'_def Let_def)
  ultimately show ?thesis
    using m r' by simp
qed

lemma finish_Nil: "finish [] = ''.''"
  by code_simp

text \<open>
  Claim C3, as the specification states it: the reply to
  \<^verbatim>\<open>"Assistant: Hello there! Wait, actually never mind."\<close> is \<^verbatim>\<open>"Hello there!."\<close>.
  It is not: the text left in front of the marker \<^verbatim>\<open>Wait\<close> ends in \<^verbatim>\<open>!\<close>, so line 128
  appends no period.
\<close>

theorem sanitize_hello_counterexample:
  "sanitize ''Assistant: Hello there! Wait, actually never mind.'' \<noteq> ''Hello there!.''"
  by code_simp

text \<open>
  Claim C3, amended: the reply to \<^verbatim>\<open>"Assistant: Hello there! Wait, actually never mind."\<close>
  is exactly \<^verbatim>\<open>"Hello there!"\<close>.
\<close>

theorem sanitize_hello:
  "sanitize ''Assistant: Hello there! Wait, actually never mind.'' = ''Hello there!''"
  by code_simp

text \<open>
  Claim C8: the sanitizer is a total function whose result is never the empty string;
  when lines 108 to 126 leave the empty string the result is the single period, and so
  the reply to the empty text is \<^verbatim>\<open>"."\<close>.
\<close>

theorem sanitize_never_empty:
  "sanitize decoded \<noteq> []
   \<and> (steps_1_6 decoded = [] \<longrightarrow> sanitize decoded = ''.'')
   \<and> sanitize [] = ''.''"
proof -
  have "sanitize decoded \<noteq> []"
    using finish_ends_terminal [of "steps_1_6 decoded"] by (simp add: sanitize_def)
  moreover have "steps_1_6 decoded = [] \<longrightarrow> sanitize decoded = ''.''"
    by (simp add: sanitize_def finish_Nil)
  moreover have "sanitize [] = ''.''"
    by code_simp
  ultimately show ?thesis by blast
qed

theorem sanitize_never_empty_witness:
  "steps_1_6 ''Wait, what?'' = [] \<and> sanitize ''Wait, what?'' = ''.''
   \<and> sanitize ''Wait, what?'' \<noteq> []"
proof -
  have h: "steps_1_6 ''Wait, what?'' = []"
    by code_simp
  with sanitize_never_empty [of "''Wait, what?''"] show ?thesis
    by simp
qed


subsection \<open>Discourse markers are removed line by line\<close>

lemma fillers_no_newline: "\<forall>m\<in>set fillers. m \<noteq> [] \<and> newline \<notin> set (map lower m)"
  by code_simp

lemma lower_newline: "lower newline = newline"
  by code_simp

lemma newline_not_word: "\<not> is_word newline"
  by code_simp

lemma word_boundary_newline: "word_boundary p (Some newline) = word_boundary p None"
  by (simp add: word_boundary_def newline_not_word)

lemma head_append: "l \<noteq> [] \<Longrightarrow> head (l @ r) = head l"
  by (cases l) simp_all

lemma filler_match_line:
  assumes "newline \<notin> set l" and "m \<in> set fillers"
  shows "(length m \<le> length (l @ newline # rest)
          \<and> map lower (take (length m) (l @ newline # rest)) = map lower m
          \<and> word_boundary (Some (last (take (length m) (l @ newline # rest))))
               (head (drop (length m) (l @ newline # rest))))
       = (length m \<le> length l
          \<and> map lower (take (length m) l) = map lower m
          \<and> word_boundary (Some (last (take (length m) l))) (head (drop (length m) l)))"
proof (cases "length m \<le> length l")
  case True
  have "head (drop (length m) l @ newline # rest) = head (drop (length m) l)
      \<or> (drop (length m) l = [] \<and> head (drop (length m) l @ newline # rest) = Some newline)"
    by (cases "drop (length m) l") simp_all
  then have "word_boundary p (head (drop (length m) l @ newline # rest))
      = word_boundary p (head (drop (length m) l))" for p
    by (auto simp: word_boundary_newline)
  with True show ?thesis
    by simp
next
  case False
  then have "take (length m) (l @ newline # rest)
      = l @ newline # take (length m - length l - 1) rest"
    by (cases "length m - length l") simp_all
  then have "newline \<in> set (map lower (take (length m) (l @ newline # rest)))"
    using lower_newline by (simp add: image_iff)
  moreover have "newline \<notin> set (map lower m)"
    using assms(2) fillers_no_newline by blast
  ultimately have "map lower (take (length m) (l @ newline # rest)) \<noteq> map lower m"
    by metis
  with False show ?thesis
    by simp
qed

lemma filler_at_line:
  assumes "newline \<notin> set l" and "l \<noteq> []"
  shows "filler_at prev (l @ newline # rest) = filler_at prev l"
  unfolding filler_at_def list_ex_iff
  using filler_match_line [OF assms(1)] head_append [OF assms(2)] by simp

lemma filler_at_newline: "\<not> filler_at prev (newline # rest)"
proof
  assume "filler_at prev (newline # rest)"
  then obtain m where m: "m \<in> set fillers" "length m \<le> length (newline # rest)"
    "map lower (take (length m) (newline # rest)) = map lower m"
    by (auto simp: filler_at_def list_ex_iff)
  from m(1) have n: "m \<noteq> []" "newline \<notin> set (map lower m)"
    using fillers_no_newline by blast+
  then obtain k where "length m = Suc k"
    by (cases m) simp_all
  with m(3) have "lower newline # map lower (take k rest) = map lower m"
    by simp
  then have "newline \<in> set (map lower m)"
    using lower_newline by (metis list.set_intros(1))
  with n(2) show False by simp
qed

lemma dropWhile_line: "newline \<notin> set l \<Longrightarrow> dropWhile (\<lambda>x. x \<noteq> newline) (l @ newline # rest) = newline # rest"
  by (induction l) auto

lemma dropWhile_no_newline: "newline \<notin> set l \<Longrightarrow> dropWhile (\<lambda>x. x \<noteq> newline) l = []"
  by (induction l) auto

lemma remove_thinking_one_line:
  "newline \<notin> set l \<Longrightarrow> remove_thinking prev l = cut_at_filler prev l"
  by (induction l arbitrary: prev) (simp_all add: dropWhile_no_newline)

lemma remove_thinking_first_line:
  "newline \<notin> set l \<Longrightarrow>
   remove_thinking prev (l @ newline # rest)
     = cut_at_filler prev l @ newline # remove_thinking (Some newline) rest"
proof (induction l arbitrary: prev)
  case Nil
  then show ?case
    by (simp add: filler_at_newline)
next
  case (Cons c l)
  then have n: "newline \<notin> set (c # l)" "newline \<notin> set l"
    by simp_all
  have f: "filler_at prev ((c # l) @ newline # rest) = filler_at prev (c # l)"
    using n(1) by (rule filler_at_line) simp
  show ?case
  proof (cases "filler_at prev (c # l)")
    case True
    with f n(2) show ?thesis
      by (simp add: dropWhile_line)
  next
    case False
    with f Cons.IH [OF n(2)] show ?thesis
      by simp
  qed
qed

text \<open>
  Claim C4, amended: a discourse marker and everything after it are deleted up to the
  end of the line on which the marker stands, and no further. On a text of one line
  the result is the text in front of the first marker; on a longer text that holds of
  the first line, the newline is kept and the lines after it are treated in the same
  way, so that their text stays unless they hold a marker of their own.
\<close>

theorem thinking_removed_to_end_of_line:
  assumes "newline \<notin> set l"
  shows "remove_thinking prev l = cut_at_filler prev l
       \<and> remove_thinking prev (l @ newline # rest)
           = cut_at_filler prev l @ newline # remove_thinking (Some newline) rest
       \<and> (before_filler decoded = l \<longrightarrow>
            sanitize decoded = finish (three_sentences (strip (cut_at_filler None l))))
       \<and> (before_filler decoded = l @ newline # rest \<longrightarrow>
            sanitize decoded
              = finish (three_sentences (strip
                  (cut_at_filler None l @ newline # remove_thinking (Some newline) rest))))"
  using assms
  by (simp add: remove_thinking_one_line remove_thinking_first_line sanitize_def steps_1_6_def)

text \<open>
  Claim C4, amended, on the text \<^verbatim>\<open>"Yes. Wait no\nParis is big"\<close>: the first line is cut
  at \<^verbatim>\<open>Wait\<close>, the second line stays.
\<close>

theorem thinking_removed_to_end_of_line_witness:
  "newline \<notin> set ''Yes. Wait no''
   \<and> before_filler (''Yes. Wait no'' @ newline # ''Paris is big'') = ''Yes. Wait no'' @ newline # ''Paris is big''
   \<and> cut_at_filler None ''Yes. Wait no'' = ''Yes. ''
   \<and> remove_thinking (Some newline) ''Paris is big'' = ''Paris is big''
   \<and> sanitize (''Yes. Wait no'' @ newline # ''Paris is big'')
       = finish (three_sentences (strip (''Yes. '' @ newline # ''Paris is big'')))"
proof -
  let ?l = "''Yes. Wait no''"
  let ?r = "''Paris is big''"
  have n: "newline \<notin> set ?l"
    by code_simp
  have b: "before_filler (?l @ newline # ?r) = ?l @ newline # ?r"
    by code_simp
  have c: "cut_at_filler None ?l = ''Yes. ''"
    by code_simp
  have t: "remove_thinking (Some newline) ?r = ?r"
    by code_simp
  from thinking_removed_to_end_of_line [OF n, of None ?r "?l @ newline # ?r"] b
  have "sanitize (?l @ newline # ?r)
      = finish (three_sentences (strip
          (cut_at_filler None ?l @ newline # remove_thinking (Some newline) ?r)))"
    by blast
  with n b c t show ?thesis
    by simp
qed

text \<open>
  Claim C4, as the specification states it: the marker and everything after it are
  deleted, text on later lines included. For \<^verbatim>\<open>"Yes. Wait no\nParis is big"\<close> that would
  leave \<^verbatim>\<open>"Yes. "\<close> and the reply \<^verbatim>\<open>"Yes."\<close>; the reply of the code still has the second
  line, since \<^verbatim>\<open>.*\<close> in line 118 stops at a newline.
\<close>

theorem thinking_removed_counterexample:
  "before_filler (''Yes. Wait no'' @ newline # ''Paris is big'') = ''Yes. Wait no'' @ newline # ''Paris is big''
   \<and> cut_at_filler None (''Yes. Wait no'' @ newline # ''Paris is big'') = ''Yes. ''
   \<and> finish (three_sentences (strip ''Yes. '')) = ''Yes.''
   \<and> sanitize (''Yes. Wait no'' @ newline # ''Paris is big'') = ''Yes.  Paris is big.''"
  by code_simp

section \<open>Properties of the session store\<close>

subsection \<open>The cut of line 155\<close>

lemma set_last_n_tl: "0 < n \<Longrightarrow> n < length xs \<Longrightarrow> set (last_n n xs) \<subseteq> set (tl xs)"
proof -
  assume n: "0 < n" "n < length xs"
  then have "length xs - n = Suc (length xs - n - 1)"
    by arith
  then have "last_n n xs = drop (length xs - n - 1) (tl xs)"
    by (simp add: last_n_def drop_Suc)
  then show ?thesis
    by (simp add: set_drop_subset)
qed

lemma last_last_n: "0 < n \<Longrightarrow> xs \<noteq> [] \<Longrightarrow> last (last_n n xs) = last xs"
  by (simp add: last_n_def last_drop)

lemma append_user_ok:
  assumes "h \<noteq> []" and "hd h = L" and "list_all reply_line (tl h)"
  shows "append_user h u \<noteq> [] \<and> hd (append_user h u) = L
         \<and> list_all reply_line (tl (append_user h u))
         \<and> length (append_user h u) \<le> MAX_HISTORY * 2 + 1
         \<and> last (append_user h u) = ''User: '' @ u"
proof -
  let ?x = "''User: '' @ u"
  let ?h = "h @ [?x]"
  have x: "reply_line ?x"
    by (simp add: reply_line_def)
  have all: "list_all reply_line (tl ?h)"
    using assms(1,3) x by (cases h) simp_all
  show ?thesis
  proof (cases "length ?h > MAX_HISTORY * 2 + 1")
    case False
    then have "append_user h u = ?h"
      by (simp add: append_user_def Let_def)
    with False all assms show ?thesis by simp
  next
    case True
    then have eq: "append_user h u = hd ?h # last_n (MAX_HISTORY * 2) ?h"
      by (simp add: append_user_def Let_def)
    have sub: "set (last_n (MAX_HISTORY * 2) ?h) \<subseteq> set (tl ?h)"
      using True by (intro set_last_n_tl) (simp_all add: MAX_HISTORY_def)
    have "list_all reply_line (last_n (MAX_HISTORY * 2) ?h)"
      using all sub unfolding list_all_iff by blast
    moreover have "length (last_n (MAX_HISTORY * 2) ?h) = MAX_HISTORY * 2"
      using True by (simp add: last_n_def MAX_HISTORY_def)
    moreover have "last (last_n (MAX_HISTORY * 2) ?h) = ?x"
      using last_last_n [of "MAX_HISTORY * 2" ?h] by (simp add: MAX_HISTORY_def)
    moreover have "last_n (MAX_HISTORY * 2) ?h \<noteq> []"
      using calculation(2) by (auto simp: MAX_HISTORY_def)
    ultimately show ?thesis
      using eq assms by simp
  qed
qed

subsection \<open>Every step keeps the sessions well-formed\<close>

lemma sessions_ok_update:
  assumes "sessions_ok s"
    and "chat_histories s' = (chat_histories s)(sid := v)"
    and "handlers s' = (handlers s)(sid \<mapsto> p)"
    and "session_ok (Some p) v"
  shows "sessions_ok s'"
  unfolding sessions_ok_def
proof
  fix sid'
  show "session_ok (handlers s' sid') (chat_histories s' sid')"
  proof (cases "sid' = sid")
    case True
    with assms(2,3,4) show ?thesis by simp
  next
    case False
    with assms(1,2,3) show ?thesis by (simp add: sessions_ok_def)
  qed
qed

lemma session_okD:
  assumes "sessions_ok s" and "handlers s sid = Some q" and "q \<noteq> Finished"
  obtains h where "chat_histories s sid = Some h" and "history_ok q h"
proof -
  from assms(1) have "session_ok (handlers s sid) (chat_histories s sid)"
    by (simp add: sessions_ok_def)
  with assms(2,3) show ?thesis
    by (cases "chat_histories s sid") (auto intro: that)
qed

lemma history_ok_other:
  assumes "history_ok q h" and "\<not> awaits_generation p"
  shows "history_ok p h"
  using assms by (cases p) (simp_all add: history_ok_def)

lemma history_ok_create: "history_ok Receiving [''System: '' @ system_prompt]"
  by (simp add: history_ok_def)

lemma history_ok_acquire: "history_ok (Locking u c) h \<Longrightarrow> history_ok (Generating u c) h"
  by (simp add: history_ok_def)

lemma history_ok_append_user:
  assumes "history_ok q h"
  shows "history_ok (Locking u (context_of (append_user h u))) (append_user h u)"
proof -
  from assms have h: "h \<noteq> []" "hd h = ''System: '' @ system_prompt" "list_all reply_line (tl h)"
    by (simp_all add: history_ok_def)
  from append_user_ok [OF h, of u] show ?thesis
    by (simp add: history_ok_def generation_ok_def)
qed

lemma history_ok_append_assistant:
  assumes "history_ok (Generating u c) h"
  shows "history_ok (Logging u r) (h @ [''Assistant: '' @ r])"
proof -
  have "reply_line (''Assistant: '' @ r)"
    by (simp add: reply_line_def)
  with assms show ?thesis
    by (cases h) (simp_all add: history_ok_def generation_ok_def)
qed

lemma keep_history_ok:
  assumes "sessions_ok s" and "handlers s sid = Some q" and "q \<noteq> Finished"
    and "\<not> awaits_generation p"
    and "chat_histories s' = chat_histories s" and "handlers s' = (handlers s)(sid \<mapsto> p)"
  shows "sessions_ok s'"
proof -
  from assms(1,2,3) obtain h where h: "chat_histories s sid = Some h" "history_ok q h"
    by (rule session_okD)
  from h(2) assms(4) have "history_ok p h"
    by (rule history_ok_other)
  with h(1) show ?thesis
    by (intro sessions_ok_update [OF assms(1), where sid = sid and v = "Some h" and p = p])
      (simp_all add: assms(5,6) map_upd_triv)
qed

lemma drop_history_ok:
  assumes "sessions_ok s"
    and "chat_histories s' = (chat_histories s)(sid := None)"
    and "handlers s' = (handlers s)(sid \<mapsto> Finished)"
  shows "sessions_ok s'"
  by (rule sessions_ok_update [OF assms(1), where sid = sid and v = None and p = Finished])
    (simp_all add: assms(2,3))

lemma handle_exn_ok:
  assumes "sessions_ok s" and "handlers s sid = Some q" and "q \<noteq> Finished"
  shows "sessions_ok (handle_exn sid e s)"
proof (cases e)
  case WebSocketDisconnect
  then show ?thesis
    by (intro drop_history_ok [OF assms(1), where sid = sid]) simp_all
next
  case OtherException
  then show ?thesis
    by (intro keep_history_ok [OF assms, where p = Closing]) simp_all
qed

lemma sessions_ok_lock: "sessions_ok (s\<lparr>model_lock := b\<rparr>) = sessions_ok s"
  by (simp add: sessions_ok_def)

lemma connect_ok:
  assumes "sessions_ok s" and "step (Connect sid) s = Some s'"
  shows "sessions_ok s'"
  by (rule sessions_ok_update [OF assms(1), where sid = sid
        and v = "Some [''System: '' @ system_prompt]" and p = Receiving])
    (use assms(2) history_ok_create in \<open>auto split: if_splits\<close>)

lemma receive_ok:
  assumes "sessions_ok s" and "step (Receive sid r) s = Some s'"
  shows "sessions_ok s'"
proof -
  from assms(2) have p: "handlers s sid = Some Receiving"
    by (simp split: option.splits pc.splits)
  with assms(1) obtain h where h: "chat_histories s sid = Some h" "history_ok Receiving h"
    by (rule session_okD) simp
  show ?thesis
  proof (cases r)
    case (Inl e)
    with assms(2) p have "s' = handle_exn sid e s"
      by simp
    then show ?thesis
      using handle_exn_ok [OF assms(1) p, of e] by simp
  next
    case (Inr u)
    with h(1) assms(2) p
    have s': "s' = s\<lparr>chat_histories := (chat_histories s)(sid \<mapsto> append_user h u),
        handlers := (handlers s)(sid \<mapsto> Locking u (context_of (append_user h u)))\<rparr>"
      by (simp add: Let_def)
    show ?thesis
      by (rule sessions_ok_update [OF assms(1), where sid = sid
            and v = "Some (append_user h u)"
            and p = "Locking u (context_of (append_user h u))"])
        (use s' history_ok_append_user [OF h(2)] in simp_all)
  qed
qed

lemma acquire_ok:
  assumes "sessions_ok s" and "step (Acquire sid) s = Some s'"
  shows "sessions_ok s'"
proof -
  from assms(2) obtain u c where p: "handlers s sid = Some (Locking u c)"
    by (auto split: option.splits pc.splits)
  with assms(2) have s': "s' = s\<lparr>model_lock := True,
      handlers := (handlers s)(sid \<mapsto> Generating u c)\<rparr>"
    by (simp split: if_splits)
  from assms(1) p obtain h where h: "chat_histories s sid = Some h" "history_ok (Locking u c) h"
    by (rule session_okD) simp
  from h(2) have "history_ok (Generating u c) h"
    by (rule history_ok_acquire)
  with h(1) show ?thesis
    by (intro sessions_ok_update [OF assms(1), where sid = sid and v = "Some h"
          and p = "Generating u c"]) (simp_all add: s' map_upd_triv)
qed

lemma generate_ok:
  assumes "sessions_ok s" and "step (Generate sid r) s = Some s'"
  shows "sessions_ok s'"
proof -
  from assms(2) obtain u c where p: "handlers s sid = Some (Generating u c)"
    by (auto split: option.splits pc.splits)
  let ?s = "s\<lparr>model_lock := False\<rparr>"
  have ok: "sessions_ok ?s" and p': "handlers ?s sid = Some (Generating u c)"
    using assms(1) p by (simp_all add: sessions_ok_lock)
  from assms(1) p obtain h where h: "chat_histories s sid = Some h"
    "history_ok (Generating u c) h"
    by (rule session_okD) simp
  show ?thesis
  proof (cases r)
    case (Inl e)
    with assms(2) p have "s' = handle_exn sid e ?s"
      by simp
    then show ?thesis
      using handle_exn_ok [OF ok p', of e] by simp
  next
    case (Inr d)
    with h(1) assms(2) p
    have s': "s' = s\<lparr>model_lock := False,
        chat_histories := (chat_histories s)(sid \<mapsto> h @ [''Assistant: '' @ sanitize d]),
        handlers := (handlers s)(sid \<mapsto> Logging u (sanitize d))\<rparr>"
      by (simp add: Let_def)
    show ?thesis
      by (rule sessions_ok_update [OF assms(1), where sid = sid
            and v = "Some (h @ [''Assistant: '' @ sanitize d])"
            and p = "Logging u (sanitize d)"])
        (use s' history_ok_append_assistant [OF h(2), of "sanitize d"] in simp_all)
  qed
qed

lemma log_ok:
  assumes "sessions_ok s" and "step (Log sid r) s = Some s'"
  shows "sessions_ok s'"
proof -
  from assms(2) obtain u c where p: "handlers s sid = Some (Logging u c)"
    by (auto split: option.splits pc.splits)
  show ?thesis
  proof (cases r)
    case (Inl e)
    with assms(2) p have "s' = handle_exn sid e s"
      by simp
    then show ?thesis
      using handle_exn_ok [OF assms(1) p, of e] by simp
  next
    case (Inr x)
    with assms(2) p show ?thesis
      by (intro keep_history_ok [OF assms(1) p, where p = "SendingReply c"]) auto
  qed
qed

lemma send_ok:
  assumes "sessions_ok s" and "step (Send sid r) s = Some s'"
  shows "sessions_ok s'"
proof -
  from assms(2) consider c where "handlers s sid = Some (SendingReply c)"
    | "handlers s sid = Some SendingEnd"
    by (auto split: option.splits pc.splits)
  then show ?thesis
  proof cases
    case 1
    show ?thesis
    proof (cases r)
      case (Inl e)
      with assms(2) 1 have "s' = handle_exn sid e s"
        by simp
      then show ?thesis
        using handle_exn_ok [OF assms(1) 1, of e] by simp
    next
      case (Inr x)
      with assms(2) 1 show ?thesis
        by (intro keep_history_ok [OF assms(1) 1, where p = SendingEnd]) auto
    qed
  next
    case 2
    show ?thesis
    proof (cases r)
      case (Inl e)
      with assms(2) 2 have "s' = handle_exn sid e s"
        by simp
      then show ?thesis
        using handle_exn_ok [OF assms(1) 2, of e] by simp
    next
      case (Inr x)
      with assms(2) 2 show ?thesis
        by (intro keep_history_ok [OF assms(1) 2, where p = Receiving]) auto
    qed
  qed
qed

lemma close_ok:
  assumes "sessions_ok s" and "step (Close sid r) s = Some s'"
  shows "sessions_ok s'"
proof -
  from assms(2) have p: "handlers s sid = Some Closing"
    by (simp split: option.splits pc.splits)
  show ?thesis
  proof (cases r)
    case (Inl e)
    with assms(2) p show ?thesis
      by (intro keep_history_ok [OF assms(1) p, where p = Finished]) auto
  next
    case (Inr x)
    with assms(2) p show ?thesis
      by (intro drop_history_ok [OF assms(1), where sid = sid]) auto
  qed
qed

lemma step_ok: "sessions_ok s \<Longrightarrow> step e s = Some s' \<Longrightarrow> sessions_ok s'"
  by (cases e) (blast intro: connect_ok receive_ok acquire_ok generate_ok log_ok send_ok close_ok)+

lemma run_ok: "sessions_ok s \<Longrightarrow> run es s = Some s' \<Longrightarrow> sessions_ok s'"
proof (induction es arbitrary: s)
  case Nil
  then show ?case by simp
next
  case (Cons e es)
  from Cons.prems(2) obtain t where t: "step e s = Some t" "run es t = Some s'"
    by (auto split: option.splits)
  from Cons.prems(1) t(1) have "sessions_ok t"
    by (rule step_ok)
  then show ?case
    using t(2) by (rule Cons.IH)
qed

lemma init_ok: "sessions_ok init"
  by (simp add: sessions_ok_def init_def)

lemma reachable_ok: "run es init = Some s \<Longrightarrow> sessions_ok s"
  using init_ok by (rule run_ok)

lemma reachable_history:
  assumes "run es init = Some s" and "chat_histories s sid = Some h"
  obtains p where "handlers s sid = Some p" and "history_ok p h"
proof -
  from assms(1) have "session_ok (handlers s sid) (chat_histories s sid)"
    using reachable_ok by (simp add: sessions_ok_def)
  with assms(2) show ?thesis
    by (cases "handlers s sid") (auto intro: that)
qed

subsection \<open>The System turn, the context and the bounds\<close>

lemma reply_lines_are_turns:
  "list_all reply_line t \<Longrightarrow> \<exists>ts. t = map turn_line ts \<and> (\<forall>x\<in>set ts. fst x \<noteq> System)"
proof (induction t)
  case Nil
  then show ?case by simp
next
  case (Cons x t)
  then obtain ts where ts: "t = map turn_line ts" "\<forall>x\<in>set ts. fst x \<noteq> System"
    by auto
  from Cons.prems have "reply_line x" by simp
  then obtain y where y: "x = turn_line y" "fst y \<noteq> System"
  proof (unfold reply_line_def, elim disjE)
    assume "prefix ''User: '' x"
    then obtain r where "x = ''User: '' @ r" by (auto simp: prefix_def)
    then have "x = turn_line (User, r)" by (simp add: turn_line_def)
    then show ?thesis using that [of "(User, r)"] by simp
  next
    assume "prefix ''Assistant: '' x"
    then obtain r where "x = ''Assistant: '' @ r" by (auto simp: prefix_def)
    then have "x = turn_line (Assistant, r)" by (simp add: turn_line_def)
    then show ?thesis using that [of "(Assistant, r)"] by simp
  qed
  with ts have "x # t = map turn_line (y # ts) \<and> (\<forall>x\<in>set (y # ts). fst x \<noteq> System)"
    by simp
  then show ?case by (rule exI [where x = "y # ts"])
qed

lemma history_ok_turns:
  assumes "history_ok p h"
  shows "\<exists>ts. h = turn_line (System, system_prompt) # map turn_line ts
              \<and> (\<forall>t\<in>set ts. fst t \<noteq> System)"
proof -
  from assms have "h \<noteq> []" "hd h = turn_line (System, system_prompt)"
    "list_all reply_line (tl h)"
    by (simp_all add: history_ok_def turn_line_def)
  moreover from this(3) obtain ts where "tl h = map turn_line ts" "\<forall>t\<in>set ts. fst t \<noteq> System"
    using reply_lines_are_turns by blast
  ultimately show ?thesis
    by (cases h) auto
qed

text \<open>
  Claim C6: in every state that the process can reach, the history of every session
  starts with the System turn of the fixed preamble, and no other entry is a System
  turn. The state is any reachable one, so no append and no cut removes that turn.
\<close>

theorem system_turn_first:
  assumes "run evs init = Some s" and "chat_histories s sid = Some h"
  shows "\<exists>ts. h = turn_line (System, system_prompt) # map turn_line ts
              \<and> (\<forall>t\<in>set ts. fst t \<noteq> System)"
proof -
  from assms obtain p where "history_ok p h"
    by (rule reachable_history)
  then show ?thesis
    by (rule history_ok_turns)
qed


text \<open>
  Claim C6 on a session of one whole turn.
\<close>

theorem system_turn_first_witness:
  "run (Connect ''a'' # turn ''a'' ''hi'' ''Hello'') init \<noteq> None
   \<and> chat_histories (the (run (Connect ''a'' # turn ''a'' ''hi'' ''Hello'') init)) ''a''
       = Some [''System: '' @ system_prompt, ''User: hi'', ''Assistant: Hello.'']
   \<and> (\<exists>ts. [''System: '' @ system_prompt, ''User: hi'', ''Assistant: Hello.'']
             = turn_line (System, system_prompt) # map turn_line ts
           \<and> (\<forall>t\<in>set ts. fst t \<noteq> System))"
proof -
  let ?evs = "Connect ''a'' # turn ''a'' ''hi'' ''Hello''"
  have r: "run ?evs init \<noteq> None"
    by code_simp
  then have r': "run ?evs init = Some (the (run ?evs init))"
    by simp
  have h: "chat_histories (the (run ?evs init)) ''a''
      = Some [''System: '' @ system_prompt, ''User: hi'', ''Assistant: Hello.'']"
    by code_simp
  from system_turn_first [OF r' h] r h show ?thesis
    by blast
qed

lemma str_join_snoc: "xs \<noteq> [] \<Longrightarrow> str_join sep (xs @ [y]) = str_join sep xs @ sep @ y"
  by (induction sep xs rule: str_join.induct) simp_all

text \<open>
  Claim C7: while a generation call of a session is in flight, the \<^verbatim>\<open>context\<close> it was
  given is the session's history, each entry a line \<^verbatim>\<open><Role>: <text>\<close>, joined by
  newlines and followed by a newline and \<^verbatim>\<open>Assistant:\<close>; the last turn is the User turn
  just received. This is \<^verbatim>\<open>render\<close> of the specification.
\<close>

theorem context_is_rendered_history:
  assumes "run evs init = Some s" and "handlers s sid = Some (Generating user_input context)"
  shows "\<exists>ts. chat_histories s sid = Some (map turn_line ts)
              \<and> last (map turn_line ts) = turn_line (User, user_input)
              \<and> context = str_join [newline] (map turn_line ts) @ [newline] @ ''Assistant:''
              \<and> context = spec_render ts"
proof -
  from assms(1) have "sessions_ok s"
    by (rule reachable_ok)
  then obtain h where h: "chat_histories s sid = Some h"
    "history_ok (Generating user_input context) h"
    using assms(2) by (rule session_okD) simp
  from h(2) obtain ts where ts: "h = turn_line (System, system_prompt) # map turn_line ts"
    using history_ok_turns by blast
  let ?ts = "(System, system_prompt) # ts"
  have m: "h = map turn_line ?ts"
    using ts by simp
  from h(2) have g: "last h = turn_line (User, user_input)" "context = context_of h"
    by (simp_all add: history_ok_def generation_ok_def turn_line_def)
  have "spec_render ?ts = context_of (map turn_line ?ts)"
    unfolding spec_render_def context_of_def by (rule str_join_snoc) simp
  with h(1) g m have "chat_histories s sid = Some (map turn_line ?ts)
      \<and> last (map turn_line ?ts) = turn_line (User, user_input)
      \<and> context = str_join [newline] (map turn_line ?ts) @ [newline] @ ''Assistant:''
      \<and> context = spec_render ?ts"
    by (simp add: context_of_def)
  then show ?thesis
    by (rule exI [where x = ?ts])
qed

text \<open>
  Claim C7 on the first message \<^verbatim>\<open>"What is 2+2?"\<close> of a session.
\<close>

theorem context_is_rendered_history_witness:
  "run [Connect ''a'', Receive ''a'' (Inr ''What is 2+2?''), Acquire ''a''] init \<noteq> None
   \<and> handlers (the (run [Connect ''a'', Receive ''a'' (Inr ''What is 2+2?''), Acquire ''a''] init)) ''a''
       = Some (Generating ''What is 2+2?''
            (''System: '' @ system_prompt @ [newline] @ ''User: What is 2+2?'' @ [newline] @ ''Assistant:''))
   \<and> (\<exists>ts. chat_histories (the (run [Connect ''a'', Receive ''a'' (Inr ''What is 2+2?''), Acquire ''a''] init)) ''a''
             = Some (map turn_line ts)
           \<and> ''System: '' @ system_prompt @ [newline] @ ''User: What is 2+2?'' @ [newline] @ ''Assistant:''
             = spec_render ts)"
proof -
  let ?evs = "[Connect ''a'', Receive ''a'' (Inr ''What is 2+2?''), Acquire ''a'']"
  let ?c = "''System: '' @ system_prompt @ [newline] @ ''User: What is 2+2?'' @ [newline] @ ''Assistant:''"
  have r: "run ?evs init \<noteq> None"
    by code_simp
  then have r': "run ?evs init = Some (the (run ?evs init))"
    by simp
  have p: "handlers (the (run ?evs init)) ''a'' = Some (Generating ''What is 2+2?'' ?c)"
    by code_simp
  from context_is_rendered_history [OF r' p] r p show ?thesis
    by blast
qed

text \<open>
  Claim C1, as the specification states it: no reachable history has more than
  \<open>1 + 2 * MAX_HISTORY = 7\<close> entries, also right after the Assistant turn is appended.
  After three whole turns and the reply to a fourth message the history has 8.
\<close>

theorem history_bound_seven_counterexample:
  "run fourth_reply init \<noteq> None
   \<and> map_option length (chat_histories (the (run fourth_reply init)) ''a'') = Some 8
   \<and> \<not> (8 \<le> 1 + 2 * MAX_HISTORY)"
  by code_simp

text \<open>
  Claim C1, amended: from the append of a User turn, with the cut of line 155, until
  the append of the Assistant turn, that is while the context is rendered and the
  handler waits for the lock or for the generation, the history of the session has at
  most \<open>1 + 2 * MAX_HISTORY\<close> entries.
\<close>

theorem history_bound_while_generating:
  assumes "run evs init = Some s" and "chat_histories s sid = Some h"
    and "handlers s sid = Some p" and "awaits_generation p"
  shows "length h \<le> 1 + 2 * MAX_HISTORY"
proof -
  from assms(1,2) obtain q where "handlers s sid = Some q" "history_ok q h"
    by (rule reachable_history)
  with assms(3,4) show ?thesis
    by (cases p) (simp_all add: history_ok_def generation_ok_def)
qed

text \<open>
  Claim C1, amended, on the fourth message of a session: the cut leaves 7 entries.
\<close>

theorem history_bound_while_generating_witness:
  "run (three_turns @ [Receive ''a'' (Inr ''4'')]) init \<noteq> None
   \<and> map_option length (chat_histories (the (run (three_turns @ [Receive ''a'' (Inr ''4'')]) init)) ''a'')
       = Some 7
   \<and> map_option awaits_generation (handlers (the (run (three_turns @ [Receive ''a'' (Inr ''4'')]) init)) ''a'')
       = Some True
   \<and> length (the (chat_histories (the (run (three_turns @ [Receive ''a'' (Inr ''4'')]) init)) ''a''))
       \<le> 1 + 2 * MAX_HISTORY"
proof -
  let ?evs = "three_turns @ [Receive ''a'' (Inr ''4'')]"
  let ?s = "the (run ?evs init)"
  have r: "run ?evs init \<noteq> None"
    by code_simp
  then have r': "run ?evs init = Some ?s"
    by simp
  have h: "map_option length (chat_histories ?s ''a'') = Some 7"
    by code_simp
  then have h': "chat_histories ?s ''a'' = Some (the (chat_histories ?s ''a''))"
    by (cases "chat_histories ?s ''a''") simp_all
  have p: "map_option awaits_generation (handlers ?s ''a'') = Some True"
    by code_simp
  then have p': "handlers ?s ''a'' = Some (the (handlers ?s ''a''))"
    "awaits_generation (the (handlers ?s ''a''))"
    by (cases "handlers ?s ''a''"; simp)+
  from history_bound_while_generating [OF r' h' p'] r h p show ?thesis
    by blast
qed

text \<open>
  Claim C10: no reachable history has more than \<open>2 + 2 * MAX_HISTORY = 8\<close> entries, and
  8 entries are reached, right after an Assistant turn is appended (the handler is then
  at line 163): the history is cut only when a User turn is appended.
\<close>

theorem history_bound_eight:
  assumes "run evs init = Some s" and "chat_histories s sid = Some h"
  shows "length h \<le> 2 + 2 * MAX_HISTORY
         \<and> (\<exists>evs' s' sid' h' u r.
               run evs' init = Some s' \<and> handlers s' sid' = Some (Logging u r)
               \<and> chat_histories s' sid' = Some h' \<and> length h' = 2 + 2 * MAX_HISTORY)"
proof
  from assms obtain q where "history_ok q h"
    by (rule reachable_history)
  then show "length h \<le> 2 + 2 * MAX_HISTORY"
    by (simp add: history_ok_def)
next
  let ?s = "the (run fourth_reply init)"
  have "run fourth_reply init \<noteq> None"
    by code_simp
  then have r: "run fourth_reply init = Some ?s"
    by simp
  have p: "handlers ?s ''a'' = Some (Logging ''4'' ''w.'')"
    by code_simp
  have "map_option length (chat_histories ?s ''a'') = Some (2 + 2 * MAX_HISTORY)"
    by code_simp
  then have "chat_histories ?s ''a'' = Some (the (chat_histories ?s ''a''))"
    "length (the (chat_histories ?s ''a'')) = 2 + 2 * MAX_HISTORY"
    by (cases "chat_histories ?s ''a''"; simp)+
  with r p show "\<exists>evs' s' sid' h' u r.
      run evs' init = Some s' \<and> handlers s' sid' = Some (Logging u r)
      \<and> chat_histories s' sid' = Some h' \<and> length h' = 2 + 2 * MAX_HISTORY"
    by blast
qed

text \<open>
  Claim C10 on the state after the fourth reply has been logged.
\<close>

theorem history_bound_eight_witness:
  "run (fourth_reply @ [Log ''a'' (Inr ())]) init \<noteq> None
   \<and> map_option length (chat_histories (the (run (fourth_reply @ [Log ''a'' (Inr ())]) init)) ''a'')
       = Some 8
   \<and> length (the (chat_histories (the (run (fourth_reply @ [Log ''a'' (Inr ())]) init)) ''a''))
       \<le> 2 + 2 * MAX_HISTORY"
proof -
  let ?evs = "fourth_reply @ [Log ''a'' (Inr ())]"
  let ?s = "the (run ?evs init)"
  have r: "run ?evs init \<noteq> None"
    by code_simp
  then have r': "run ?evs init = Some ?s"
    by simp
  have h: "map_option length (chat_histories ?s ''a'') = Some 8"
    by code_simp
  then have h': "chat_histories ?s ''a'' = Some (the (chat_histories ?s ''a''))"
    by (cases "chat_histories ?s ''a''") simp_all
  from history_bound_eight [OF r' h'] r h show ?thesis
    by blast
qed

text \<open>
  Claim C5: when the append of a User turn makes the history of a session longer than
  \<open>1 + 2 * MAX_HISTORY\<close>, the new history is the System turn of the preamble followed by
  the last \<open>2 * MAX_HISTORY\<close> entries of the history with the User turn appended.
\<close>

theorem trim_rewrites_history:
  assumes "run evs init = Some s" and "handlers s sid = Some Receiving"
    and "chat_histories s sid = Some h"
    and "length (h @ [turn_line (User, user_input)]) > 1 + 2 * MAX_HISTORY"
  shows "\<exists>s'. step (Receive sid (Inr user_input)) s = Some s'
           \<and> chat_histories s' sid
               = Some (turn_line (System, system_prompt)
                       # last_n (2 * MAX_HISTORY) (h @ [turn_line (User, user_input)]))"
proof -
  from assms(1,3) obtain p where "history_ok p h"
    by (rule reachable_history)
  then have h: "h \<noteq> []" "hd h = turn_line (System, system_prompt)"
    by (simp_all add: history_ok_def turn_line_def)
  from assms(4) have "append_user h user_input
      = hd (h @ [turn_line (User, user_input)])
        # last_n (2 * MAX_HISTORY) (h @ [turn_line (User, user_input)])"
    by (simp add: append_user_def Let_def turn_line_def mult.commute)
  with h have "append_user h user_input
      = turn_line (System, system_prompt)
        # last_n (2 * MAX_HISTORY) (h @ [turn_line (User, user_input)])"
    by simp
  with assms(2,3) show ?thesis
    by (simp add: Let_def)
qed

text \<open>
  Claim C5 on the fourth message of a session: the first User turn is dropped.
\<close>

theorem trim_rewrites_history_witness:
  "run three_turns init \<noteq> None
   \<and> handlers (the (run three_turns init)) ''a'' = Some Receiving
   \<and> chat_histories (the (run three_turns init)) ''a''
       = Some [''System: '' @ system_prompt, ''User: 1'', ''Assistant: x.'', ''User: 2'',
               ''Assistant: y.'', ''User: 3'', ''Assistant: z.'']
   \<and> (\<exists>s'. step (Receive ''a'' (Inr ''4'')) (the (run three_turns init)) = Some s'
          \<and> chat_histories s' ''a''
              = Some [''System: '' @ system_prompt, ''Assistant: x.'', ''User: 2'',
                      ''Assistant: y.'', ''User: 3'', ''Assistant: z.'', ''User: 4''])"
proof -
  let ?s = "the (run three_turns init)"
  let ?h = "[''System: '' @ system_prompt, ''User: 1'', ''Assistant: x.'', ''User: 2'',
             ''Assistant: y.'', ''User: 3'', ''Assistant: z.'']"
  have r: "run three_turns init \<noteq> None"
    by code_simp
  then have r': "run three_turns init = Some ?s"
    by simp
  have p: "handlers ?s ''a'' = Some Receiving"
    by code_simp
  have h: "chat_histories ?s ''a'' = Some ?h"
    by code_simp
  have l: "length (?h @ [turn_line (User, ''4'')]) > 1 + 2 * MAX_HISTORY"
    by (simp add: MAX_HISTORY_def)
  have e: "turn_line (System, system_prompt) # last_n (2 * MAX_HISTORY) (?h @ [turn_line (User, ''4'')])
      = [''System: '' @ system_prompt, ''Assistant: x.'', ''User: 2'',
         ''Assistant: y.'', ''User: 3'', ''Assistant: z.'', ''User: 4'']"
    by (simp add: MAX_HISTORY_def last_n_def turn_line_def)
  from trim_rewrites_history [OF r' p h l] r p h show ?thesis
    unfolding e by blast
qed

section \<open>A failure of the audit log\<close>

lemma handle_exn_wire: "wire (handle_exn a e s) = wire s"
  by (cases e) simp_all

lemma handle_exn_handlers: "a \<noteq> sid \<Longrightarrow> handlers (handle_exn a e s) sid = handlers s sid"
  by (cases e) simp_all

lemma frames_of_snoc:
  "frames_of sid (s\<lparr>wire := wire s @ [(a, f)]\<rparr>)
     = (if a = sid then frames_of sid s @ [f] else frames_of sid s)"
  by (simp add: frames_of_def)

lemma step_other_session:
  assumes "step e s = Some s'" and "session_of e \<noteq> sid"
  shows "handlers s' sid = handlers s sid \<and> frames_of sid s' = frames_of sid s"
proof (cases e)
  case (Connect a)
  with assms show ?thesis
    by (auto simp: frames_of_def split: if_splits)
next
  case (Receive a r)
  with assms show ?thesis
    by (cases r)
      (auto simp: frames_of_def handle_exn_wire handle_exn_handlers Let_def
        split: option.splits pc.splits)
next
  case (Acquire a)
  with assms show ?thesis
    by (auto simp: frames_of_def split: option.splits pc.splits if_splits)
next
  case (Generate a r)
  with assms show ?thesis
    by (cases r)
      (auto simp: frames_of_def handle_exn_wire handle_exn_handlers Let_def
        split: option.splits pc.splits)
next
  case (Log a r)
  with assms show ?thesis
    by (cases r)
      (auto simp: frames_of_def handle_exn_wire handle_exn_handlers
        split: option.splits pc.splits)
next
  case (Send a r)
  with assms show ?thesis
    by (cases r)
      (auto simp: frames_of_def handle_exn_wire handle_exn_handlers
        split: option.splits pc.splits)
next
  case (Close a r)
  with assms show ?thesis
    by (cases r) (auto simp: frames_of_def split: option.splits pc.splits)
qed

lemma step_closing:
  assumes "step e s = Some s'" and "session_of e = sid" and "handlers s sid = Some Closing"
  shows "handlers s' sid = Some Finished
         \<and> (frames_of sid s' = frames_of sid s \<or> frames_of sid s' = frames_of sid s @ [Closed])"
proof (cases e)
  case (Close a r)
  with assms show ?thesis
    by (cases r) (auto simp: frames_of_def)
qed (use assms in \<open>auto split: if_splits\<close>)

lemma step_finished:
  assumes "step e s = Some s'" and "session_of e = sid" and "handlers s sid = Some Finished"
  shows False
  using assms by (cases e) (auto split: if_splits)

lemma step_ended:
  assumes "ended sid fs s" and "step e s = Some s'"
  shows "ended sid fs s'"
proof (cases "session_of e = sid")
  case False
  with assms(2) have "handlers s' sid = handlers s sid \<and> frames_of sid s' = frames_of sid s"
    by (rule step_other_session)
  with assms(1) show ?thesis
    by (simp add: ended_def)
next
  case True
  from assms(1) consider "handlers s sid = Some Closing" "frames_of sid s = fs"
    | "handlers s sid = Some Finished"
    by (auto simp: ended_def)
  then show ?thesis
  proof cases
    case 1
    with step_closing [OF assms(2) True] show ?thesis
      by (auto simp: ended_def)
  next
    case 2
    with step_finished [OF assms(2) True] show ?thesis
      by simp
  qed
qed

lemma run_ended: "ended sid fs s \<Longrightarrow> run es s = Some s' \<Longrightarrow> ended sid fs s'"
proof (induction es arbitrary: s)
  case Nil
  then show ?case by simp
next
  case (Cons e es)
  from Cons.prems(2) obtain t where t: "step e s = Some t" "run es t = Some s'"
    by (auto split: option.splits)
  from Cons.prems(1) t(1) have "ended sid fs t"
    by (rule step_ended)
  then show ?case
    using t(2) by (rule Cons.IH)
qed

text \<open>
  Claim C2, amended: when \<^verbatim>\<open>log_chat\<close> raises, no frame is sent for the failure, but the
  reply and \<^verbatim>\<open>[END]\<close> of that turn are never sent either and the session ends: whatever
  happens later, its client is sent nothing more than the closing of the socket, and
  its handler never receives again. For an exception other than a disconnect the
  handler closes the socket (line 177) and, when that returns, the history is removed.
\<close>

theorem log_failure_ends_session:
  assumes "handlers s sid = Some (Logging user_input response)"
  shows "\<exists>s'. step (Log sid (Inl e)) s = Some s'
           \<and> frames_of sid s' = frames_of sid s
           \<and> (\<forall>evs s''. run evs s' = Some s'' \<longrightarrow> ended sid (frames_of sid s) s'')
           \<and> (e = OtherException \<longrightarrow>
                handlers s' sid = Some Closing
                \<and> (\<exists>s''. step (Close sid (Inr ())) s' = Some s''
                      \<and> frames_of sid s'' = frames_of sid s @ [Closed]
                      \<and> chat_histories s'' sid = None))"
proof -
  let ?s' = "handle_exn sid e s"
  have st: "step (Log sid (Inl e)) s = Some ?s'"
    using assms by simp
  have fr: "frames_of sid ?s' = frames_of sid s"
    by (simp add: frames_of_def handle_exn_wire)
  have "ended sid (frames_of sid s) ?s'"
    using fr by (cases e) (simp_all add: ended_def)
  then have en: "\<forall>evs s''. run evs ?s' = Some s'' \<longrightarrow> ended sid (frames_of sid s) s''"
    using run_ended by blast
  have "e = OtherException \<longrightarrow>
      handlers ?s' sid = Some Closing
      \<and> (\<exists>s''. step (Close sid (Inr ())) ?s' = Some s''
            \<and> frames_of sid s'' = frames_of sid s @ [Closed]
            \<and> chat_histories s'' sid = None)"
    by (auto simp: frames_of_def)
  with st fr en show ?thesis
    by blast
qed

text \<open>
  Claim C2, as the specification states it: a failure of the audit log does not keep
  the reply and \<^verbatim>\<open>[END]\<close> from being sent and does not end the session. In the code
  \<^verbatim>\<open>log_chat\<close> is awaited in line 163, in front of the two sends and inside the \<^verbatim>\<open>try\<close>:
  when it raises, the client is sent no reply, the socket is closed and the history is
  removed.
\<close>

theorem log_failure_counterexample:
  "run [Connect ''a'', Receive ''a'' (Inr ''hi''), Acquire ''a'', Generate ''a'' (Inr ''Hello''),
        Log ''a'' (Inl OtherException), Close ''a'' (Inr ())] init \<noteq> None
   \<and> wire (the (run [Connect ''a'', Receive ''a'' (Inr ''hi''), Acquire ''a'',
        Generate ''a'' (Inr ''Hello''), Log ''a'' (Inl OtherException), Close ''a'' (Inr ())] init))
       = [(''a'', Closed)]
   \<and> chat_histories (the (run [Connect ''a'', Receive ''a'' (Inr ''hi''), Acquire ''a'',
        Generate ''a'' (Inr ''Hello''), Log ''a'' (Inl OtherException), Close ''a'' (Inr ())] init)) ''a''
       = None"
  by code_simp

text \<open>
  Claim C2, amended, on the first turn of a session.
\<close>

theorem log_failure_ends_session_witness:
  "handlers (the (run [Connect ''a'', Receive ''a'' (Inr ''hi''), Acquire ''a'',
        Generate ''a'' (Inr ''Hello'')] init)) ''a'' = Some (Logging ''hi'' ''Hello.'')
   \<and> (\<exists>s'. step (Log ''a'' (Inl OtherException)) (the (run [Connect ''a'', Receive ''a'' (Inr ''hi''),
              Acquire ''a'', Generate ''a'' (Inr ''Hello'')] init)) = Some s'
          \<and> handlers s' ''a'' = Some Closing
          \<and> (\<exists>s''. step (Close ''a'' (Inr ())) s' = Some s''
                \<and> frames_of ''a'' s'' = [Closed]
                \<and> chat_histories s'' ''a'' = None))"
proof -
  let ?s = "the (run [Connect ''a'', Receive ''a'' (Inr ''hi''), Acquire ''a'',
        Generate ''a'' (Inr ''Hello'')] init)"
  have p: "handlers ?s ''a'' = Some (Logging ''hi'' ''Hello.'')"
    by code_simp
  have f: "frames_of ''a'' ?s = []"
    by code_simp
  from log_failure_ends_session [OF p, of OtherException] p show ?thesis
    unfolding f by auto
qed

end
